theory Spec2Isabelle
  imports Main "HOL-Library.Word" "HOL-Library.AList"
begin

section \<open>Data model\<close>

text \<open>
  The buffer pool of BusTub (2021 edition), as implemented in
  \<^verbatim>\<open>lru_replacer.cpp\<close> and \<^verbatim>\<open>buffer_pool_manager_instance.cpp\<close>.

  The embedding is sequential: one thread calls the operations one after the other. The
  instance's latch is part of the state, because one operation calls another while holding it
  (\<^verbatim>\<open>std::lock_guard<std::mutex> guard(latch_)\<close> fixes its type). The replacer's own latch
  is only locked and unlocked in \<^verbatim>\<open>lru_replacer.cpp\<close> and its type is declared in a header
  that is not part of the sources; the replacer is taken without it, that is, as if that latch
  were re-entrant.

  Page identifiers are 32-bit (\<^verbatim>\<open>page_id_t\<close> is \<^verbatim>\<open>int32_t\<close>,
  \<^verbatim>\<open>num_instances_\<close> and \<^verbatim>\<open>instance_index_\<close> are \<^verbatim>\<open>uint32_t\<close>), so the
  allocator's arithmetic wraps; sizes are 64-bit (\<^verbatim>\<open>size_t\<close>). Pin counts are
  \<^verbatim>\<open>int\<close>: they are kept as integers, and incrementing the largest or decrementing the
  smallest 32-bit value, which is undefined behaviour in C++, is the error \<open>SignedOverflow\<close>.
  Frame identifiers are only copied and compared, never computed with, and are plain integers.
\<close>

type_synonym page_id_t = "32 word"
type_synonym frame_id_t = int
type_synonym page_data = "8 word list"

text \<open>
  Modelled from the spec: the sentinel \<^verbatim>\<open>INVALID_PAGE_ID\<close> is declared in a header that
  is not part of the sources; the spec gives it as -1 (equally the maximum representable
  value, which is the same 32-bit pattern).
\<close>

definition INVALID_PAGE_ID :: page_id_t where
  "INVALID_PAGE_ID = - 1"

text \<open>
  Modelled from the spec: \<^verbatim>\<open>PAGE_SIZE\<close> is a build-time constant of a header that is
  not part of the sources, conventionally 4096.
\<close>

definition PAGE_SIZE :: nat where
  "PAGE_SIZE = 4096"

text \<open>
  Modelled from the spec: the class \<^verbatim>\<open>Page\<close> is declared in a header that is not part
  of the sources: a byte block with the page identifier it holds, a pin count and a dirty flag.
\<close>

record Page =
  page_id :: page_id_t
  pin_count :: int
  is_dirty :: bool
  data :: page_data

definition new_Page :: Page where
  "new_Page = \<lparr>page_id = INVALID_PAGE_ID, pin_count = 0, is_dirty = False,
               data = replicate PAGE_SIZE 0\<rparr>"

text \<open>
  The replacer: \<^verbatim>\<open>lru\<close> is the linked list (its front is the head of the HOL list),
  \<^verbatim>\<open>hashMap\<close> the index from frame identifiers to list positions. The iterator stored
  for a key always designates the list node that holds this key, so the index is kept as its
  key set and erasing through the iterator removes that node.
\<close>

record LRUReplacer =
  capacity :: "64 word"
  lru :: "frame_id_t list"
  hashMap :: "frame_id_t set"

text \<open>
  Calls issued to the disk manager, in order. \<open>TableErase\<close> is a history event: it marks the
  moment \<^verbatim>\<open>page_table_.erase\<close> is called, so that the order of disk writes and table
  removals can be read off the trace.
\<close>

datatype event =
    DiskWrite page_id_t page_data
  | DiskRead page_id_t
  | DiskDeallocate page_id_t
  | TableErase page_id_t

text \<open>
  Isabelle does not accept field names that end in an underscore, so the members
  \<^verbatim>\<open>page_id_\<close>, \<^verbatim>\<open>pool_size_\<close>, ... are written without it.
\<close>

text \<open>
  The pool instance. \<^verbatim>\<open>page_table_\<close> is an unordered map; it is kept as an association
  list because \<^verbatim>\<open>FindReplacePolicy\<close> iterates over it (the iteration order of the C++
  container is unspecified; here it is the order of the list). \<open>latch\<close> tells whether
  \<^verbatim>\<open>latch_\<close> is held. \<open>disk\<close> and \<open>trace\<close> stand for the disk manager the instance points
  to.
\<close>

record BufferPoolManagerInstance =
  pool_size :: "64 word"
  num_instances :: "32 word"
  instance_index :: "32 word"
  next_page_id :: page_id_t
  pages :: "frame_id_t \<Rightarrow> Page"
  page_table :: "(page_id_t \<times> frame_id_t) list"
  free_list :: "frame_id_t list"
  replacer :: LRUReplacer
  latch :: bool
  disk :: "page_id_t \<Rightarrow> page_data"
  trace :: "event list"

datatype error = AssertionFailed | DivisionByZero | SignedOverflow | Deadlock

text \<open>\<^verbatim>\<open>pin_count_++\<close> and \<^verbatim>\<open>pin_count_--\<close> on an \<^verbatim>\<open>int\<close>.\<close>

definition pin_incr :: "int \<Rightarrow> error + int" where
  "pin_incr c = (if c = 2147483647 then Inl SignedOverflow else Inr (c + 1))"

definition pin_decr :: "int \<Rightarrow> error + int" where
  "pin_decr c = (if c = - 2147483648 then Inl SignedOverflow else Inr (c - 1))"

section \<open>The LRU replacer\<close>

definition new_LRUReplacer :: "64 word \<Rightarrow> LRUReplacer" where
  "new_LRUReplacer num_pages = \<lparr>capacity = num_pages, lru = [], hashMap = {}\<rparr>"

definition Victim :: "LRUReplacer \<Rightarrow> frame_id_t option \<times> LRUReplacer" where
  "Victim r =
     (if lru r = [] then (None, r)
      else let f = last (lru r)
           in (Some f, r\<lparr>lru := butlast (lru r), hashMap := hashMap r - {f}\<rparr>))"

definition Pin :: "LRUReplacer \<Rightarrow> frame_id_t \<Rightarrow> LRUReplacer" where
  "Pin r f =
     (if f \<in> hashMap r
      then r\<lparr>lru := remove1 f (lru r), hashMap := hashMap r - {f}\<rparr>
      else r)"

text \<open>
  The loop of \<^verbatim>\<open>Unpin\<close>: \<^verbatim>\<open>while (lru.size() >= capacity - 1) Victim(&e);\<close>.
  The subtraction is on \<^verbatim>\<open>size_t\<close> and wraps at capacity 0. With capacity 1 the
  condition is always true and the loop never ends: not returning is the value \<open>None\<close>.
  (\<^verbatim>\<open>Victim\<close> is called here with the replacer's latch held; with a latch that is not
  re-entrant already the first iteration would block.)
\<close>

partial_function (option) Unpin_loop :: "LRUReplacer \<Rightarrow> LRUReplacer option" where
  "Unpin_loop r =
     (if unat (capacity r - 1) \<le> length (lru r)
      then Unpin_loop (snd (Victim r))
      else Some r)"

declare Unpin_loop.simps [code]

definition Unpin :: "LRUReplacer \<Rightarrow> frame_id_t \<Rightarrow> LRUReplacer option" where
  "Unpin r f =
     (if f \<notin> hashMap r
      then (case Unpin_loop r of
              None \<Rightarrow> None
            | Some r' \<Rightarrow> Some (r'\<lparr>lru := f # lru r', hashMap := insert f (hashMap r')\<rparr>))
      else Some r)"

definition Size :: "LRUReplacer \<Rightarrow> nat" where
  "Size r = length (lru r)"

section \<open>The disk manager and the page table\<close>

text \<open>
  Modelled from the spec: the disk manager is an external collaborator with three operations,
  \<^verbatim>\<open>read_page\<close>, \<^verbatim>\<open>write_page\<close> and \<^verbatim>\<open>deallocate_page\<close>. Writing stores the
  bytes under the page identifier, reading returns them, deallocating is only recorded.
\<close>

definition WritePage :: "BufferPoolManagerInstance \<Rightarrow> page_id_t \<Rightarrow> page_data \<Rightarrow> BufferPoolManagerInstance" where
  "WritePage s pid d = s\<lparr>disk := (disk s)(pid := d), trace := trace s @ [DiskWrite pid d]\<rparr>"

definition ReadPage :: "BufferPoolManagerInstance \<Rightarrow> page_id_t \<Rightarrow> page_data \<times> BufferPoolManagerInstance" where
  "ReadPage s pid = (disk s pid, s\<lparr>trace := trace s @ [DiskRead pid]\<rparr>)"

definition DeallocatePage :: "BufferPoolManagerInstance \<Rightarrow> page_id_t \<Rightarrow> BufferPoolManagerInstance" where
  "DeallocatePage s pid = s\<lparr>trace := trace s @ [DiskDeallocate pid]\<rparr>"

text \<open>\<^verbatim>\<open>page_table_.erase(pid)\<close>, \<^verbatim>\<open>page_table_.find(pid)\<close> and \<^verbatim>\<open>page_table_[pid] = f\<close>.\<close>

definition table_erase :: "BufferPoolManagerInstance \<Rightarrow> page_id_t \<Rightarrow> BufferPoolManagerInstance" where
  "table_erase s pid =
     s\<lparr>page_table := AList.delete pid (page_table s), trace := trace s @ [TableErase pid]\<rparr>"

definition table_find :: "BufferPoolManagerInstance \<Rightarrow> page_id_t \<Rightarrow> frame_id_t option" where
  "table_find s pid = map_of (page_table s) pid"

definition table_set :: "BufferPoolManagerInstance \<Rightarrow> page_id_t \<Rightarrow> frame_id_t \<Rightarrow> BufferPoolManagerInstance" where
  "table_set s pid f = s\<lparr>page_table := AList.update pid f (page_table s)\<rparr>"

text \<open>
  \<^verbatim>\<open>latch_.lock()\<close> (also the constructor of \<^verbatim>\<open>std::lock_guard<std::mutex>\<close>) and
  \<^verbatim>\<open>latch_.unlock()\<close> (also its destructor, at every return). A \<^verbatim>\<open>std::mutex\<close> is not
  re-entrant: locking it while the calling thread holds it is undefined behaviour, in practice
  a call that blocks for ever. It is the error \<open>Deadlock\<close>.
\<close>

definition acquire :: "BufferPoolManagerInstance \<Rightarrow> error + BufferPoolManagerInstance" where
  "acquire s = (if latch s then Inl Deadlock else Inr (s\<lparr>latch := True\<rparr>))"

definition release :: "BufferPoolManagerInstance \<Rightarrow> BufferPoolManagerInstance" where
  "release s = s\<lparr>latch := False\<rparr>"

definition set_page :: "BufferPoolManagerInstance \<Rightarrow> frame_id_t \<Rightarrow> Page \<Rightarrow> BufferPoolManagerInstance" where
  "set_page s f pg = s\<lparr>pages := (pages s)(f := pg)\<rparr>"

section \<open>The pool instance\<close>

text \<open>
  The constructor. Its two assertions are branches of the model. Every frame starts on the
  free list (\<^verbatim>\<open>free_list_.emplace_back(static_cast<int>(i))\<close> for \<^verbatim>\<open>i < pool_size_\<close>).
\<close>

definition new_BufferPoolManagerInstance ::
  "64 word \<Rightarrow> 32 word \<Rightarrow> 32 word \<Rightarrow> (page_id_t \<Rightarrow> page_data) \<Rightarrow> error + BufferPoolManagerInstance" where
  "new_BufferPoolManagerInstance psize ninstances iindex dsk =
     (if \<not> 0 < ninstances then Inl AssertionFailed
      else if \<not> iindex < ninstances then Inl AssertionFailed
      else Inr \<lparr>pool_size = psize,
                num_instances = ninstances,
                instance_index = iindex,
                next_page_id = iindex,
                pages = (\<lambda>_. new_Page),
                page_table = [],
                free_list = map (\<lambda>i. sint (word_of_nat i :: 32 word)) [0 ..< unat psize],
                replacer = new_LRUReplacer psize,
                latch = False,
                disk = dsk,
                trace = []\<rparr>)"

text \<open>
  \<^verbatim>\<open>FindReplacePolicy\<close>: the front of the free list if there is one; otherwise the
  replacer's victim, provided the scan of the page table finds a page identifier other than
  -1 for it. The result is the frame (\<open>None\<close> for \<^verbatim>\<open>false\<close>).
\<close>

definition FindReplacePolicy :: "BufferPoolManagerInstance \<Rightarrow> frame_id_t option \<times> BufferPoolManagerInstance" where
  "FindReplacePolicy s =
     (case free_list s of
        f # rest \<Rightarrow> (Some f, s\<lparr>free_list := rest\<rparr>)
      | [] \<Rightarrow>
         (case Victim (replacer s) of
            (None, r) \<Rightarrow> (None, s\<lparr>replacer := r\<rparr>)
          | (Some f, r) \<Rightarrow>
             let s1 = s\<lparr>replacer := r\<rparr>;
                 replace_frame_id =
                   (case find (\<lambda>(pid, fid). fid = f) (page_table s1) of
                      None \<Rightarrow> - 1
                    | Some (pid, fid) \<Rightarrow> pid)
             in if replace_frame_id \<noteq> - 1
                then let replace_page = pages s1 f;
                         s2 = (if is_dirty replace_page
                               then set_page (WritePage s1 (page_id replace_page) (data replace_page))
                                      f (replace_page\<lparr>pin_count := 0\<rparr>)
                               else s1)
                     in (Some f, table_erase s2 (page_id (pages s2 f)))
                else (None, s1)))"

definition FlushPgImp ::
  "BufferPoolManagerInstance \<Rightarrow> page_id_t \<Rightarrow> error + (bool \<times> BufferPoolManagerInstance)" where
  "FlushPgImp s pid =
     (case acquire s of
        Inl e \<Rightarrow> Inl e
      | Inr s0 \<Rightarrow>
          (case table_find s0 pid of
             None \<Rightarrow> Inr (False, release s0)
           | Some flush_fid \<Rightarrow>
               if pid = INVALID_PAGE_ID then Inr (False, release s0)
               else Inr (True, release (WritePage s0 pid (data (pages s0 flush_fid))))))"

text \<open>
  The frames visited by \<^verbatim>\<open>for (int i = 0; i < static_cast<int>(pool_size_); i++)\<close>.
\<close>

definition frame_indices :: "BufferPoolManagerInstance \<Rightarrow> frame_id_t list" where
  "frame_indices s = map int [0 ..< nat (sint (ucast (pool_size s) :: 32 word))]"

text \<open>\<^verbatim>\<open>FlushAllPgsImp\<close> takes no latch itself; each \<^verbatim>\<open>FlushPgImp\<close> it calls does.\<close>

definition FlushAllPgsImp :: "BufferPoolManagerInstance \<Rightarrow> error + BufferPoolManagerInstance" where
  "FlushAllPgsImp s =
     fold (\<lambda>i r. case r of
                   Inl e \<Rightarrow> Inl e
                 | Inr s' \<Rightarrow> map_sum id snd (FlushPgImp s' (page_id (pages s' i))))
          (frame_indices s) (Inr s)"

text \<open>
  \<^verbatim>\<open>AllocatePage\<close>: the addition is \<^verbatim>\<open>int32_t += uint32_t\<close> and wraps; the assertion of
  \<^verbatim>\<open>ValidatePageId\<close> compares the unsigned remainder with the instance index.
\<close>

definition AllocatePage :: "BufferPoolManagerInstance \<Rightarrow> error + (page_id_t \<times> BufferPoolManagerInstance)" where
  "AllocatePage s =
     (let next_pid = next_page_id s;
          s' = s\<lparr>next_page_id := next_page_id s + num_instances s\<rparr>
      in if num_instances s' = 0 then Inl DivisionByZero
         else if next_pid mod num_instances s' = instance_index s' then Inr (next_pid, s')
         else Inl AssertionFailed)"

text \<open>
  \<^verbatim>\<open>NewPgImp\<close>. The result is the new page identifier with the frame of the returned page,
  or \<open>None\<close> for \<^verbatim>\<open>nullptr\<close>.
\<close>

definition NewPgImp ::
  "BufferPoolManagerInstance \<Rightarrow> error + ((page_id_t \<times> frame_id_t) option \<times> BufferPoolManagerInstance)" where
  "NewPgImp s =
     (case acquire s of
        Inl e \<Rightarrow> Inl e
      | Inr s0 \<Rightarrow>
     (case AllocatePage s0 of
        Inl e \<Rightarrow> Inl e
      | Inr (new_page_id, s1) \<Rightarrow>
          let is_all = list_all (\<lambda>i. pin_count (pages s1 i) \<noteq> 0) (frame_indices s1)
          in if is_all then Inr (None, release s1)
             else (case FindReplacePolicy s1 of
                     (None, s2) \<Rightarrow> Inr (None, release s2)
                   | (Some victim_fid, s2) \<Rightarrow>
                       let victim_page = pages s2 victim_fid
                       in (case pin_incr (pin_count victim_page) of
                             Inl e \<Rightarrow> Inl e
                           | Inr c \<Rightarrow>
                               let s3 = set_page s2 victim_fid
                                          (victim_page\<lparr>page_id := new_page_id, pin_count := c\<rparr>);
                                   s4 = s3\<lparr>replacer := Pin (replacer s3) victim_fid\<rparr>;
                                   s5 = table_set s4 new_page_id victim_fid;
                                   s6 = set_page s5 victim_fid
                                          ((pages s5 victim_fid)\<lparr>is_dirty := False\<rparr>);
                                   s7 = WritePage s6 (page_id (pages s6 victim_fid))
                                          (data (pages s6 victim_fid))
                               in Inr (Some (new_page_id, victim_fid), release s7)))))"

text \<open>\<^verbatim>\<open>FetchPgImp\<close>. The result is the frame of the returned page, or \<open>None\<close> for \<^verbatim>\<open>nullptr\<close>.\<close>

definition FetchPgImp ::
  "BufferPoolManagerInstance \<Rightarrow> page_id_t \<Rightarrow> error + (frame_id_t option \<times> BufferPoolManagerInstance)" where
  "FetchPgImp s pid =
     (case acquire s of
        Inl e \<Rightarrow> Inl e
      | Inr s0 \<Rightarrow>
     (case table_find s0 pid of
        Some frame_id \<Rightarrow>
          let page = pages s0 frame_id
          in (case pin_incr (pin_count page) of
                Inl e \<Rightarrow> Inl e
              | Inr c \<Rightarrow>
                  let s1 = set_page s0 frame_id (page\<lparr>pin_count := c\<rparr>);
                      s2 = s1\<lparr>replacer := Pin (replacer s1) frame_id\<rparr>
                  in Inr (Some frame_id, release s2))
      | None \<Rightarrow>
          (case FindReplacePolicy s0 of
             (None, s1) \<Rightarrow> Inr (None, release s1)
           | (Some replace_frame_id, s1) \<Rightarrow>
               let replacePage = pages s1 replace_frame_id;
                   s2 = (if is_dirty replacePage
                         then WritePage s1 (page_id replacePage) (data replacePage)
                         else s1);
                   s3 = table_erase s2 (page_id replacePage);
                   s4 = table_set s3 pid replace_frame_id;
                   (bytes, s5) = ReadPage s4 pid;
                   newPage = pages s5 replace_frame_id
               in (case pin_incr (pin_count newPage) of
                     Inl e \<Rightarrow> Inl e
                   | Inr c \<Rightarrow>
                       let s6 = set_page s5 replace_frame_id
                                  (newPage\<lparr>data := bytes, page_id := pid,
                                           pin_count := c, is_dirty := False\<rparr>);
                           s7 = s6\<lparr>replacer := Pin (replacer s6) replace_frame_id\<rparr>
                       in Inr (Some replace_frame_id, release s7)))))"

text \<open>
  \<^verbatim>\<open>DeletePgImp\<close>. For a dirty page it calls \<^verbatim>\<open>FlushPgImp\<close> while its own
  \<^verbatim>\<open>lock_guard\<close> holds the latch.
\<close>

definition DeletePgImp ::
  "BufferPoolManagerInstance \<Rightarrow> page_id_t \<Rightarrow> error + (bool \<times> BufferPoolManagerInstance)" where
  "DeletePgImp s pid =
     (case acquire s of
        Inl e \<Rightarrow> Inl e
      | Inr s0 \<Rightarrow>
     (case table_find s0 pid of
        None \<Rightarrow> Inr (True, release s0)
      | Some frame_id \<Rightarrow>
          let page = pages s0 frame_id
          in if 0 < pin_count page then Inr (False, release s0)
             else (case (if is_dirty page then map_sum id snd (FlushPgImp s0 pid) else Inr s0) of
                     Inl e \<Rightarrow> Inl e
                   | Inr s1 \<Rightarrow>
                       let s2 = DeallocatePage s1 pid;
                           s3 = table_erase s2 pid;
                           s4 = set_page s3 frame_id
                                  ((pages s3 frame_id)\<lparr>is_dirty := False, pin_count := 0,
                                                        page_id := INVALID_PAGE_ID\<rparr>);
                           s5 = s4\<lparr>free_list := free_list s4 @ [frame_id]\<rparr>
                       in Inr (True, release s5))))"

text \<open>
  \<^verbatim>\<open>UnpinPgImp\<close>. It calls the replacer's \<^verbatim>\<open>Unpin\<close>, whose loop may not end: \<open>None\<close>
  is the call that does not return.
\<close>

definition UnpinPgImp ::
  "BufferPoolManagerInstance \<Rightarrow> page_id_t \<Rightarrow> bool \<Rightarrow> (error + (bool \<times> BufferPoolManagerInstance)) option" where
  "UnpinPgImp s pid dirty =
     (case acquire s of
        Inl e \<Rightarrow> Some (Inl e)
      | Inr s0 \<Rightarrow>
     (case table_find s0 pid of
        None \<Rightarrow> Some (Inr (False, release s0))
      | Some unpinned_fid \<Rightarrow>
          let s1 = (if dirty
                    then set_page s0 unpinned_fid ((pages s0 unpinned_fid)\<lparr>is_dirty := True\<rparr>)
                    else s0)
          in if pin_count (pages s1 unpinned_fid) = 0
             then (case Unpin (replacer s1) unpinned_fid of
                     None \<Rightarrow> None
                   | Some r \<Rightarrow> Some (Inr (False, release (s1\<lparr>replacer := r\<rparr>))))
             else let unpinned_page = pages s1 unpinned_fid
                  in (case pin_decr (pin_count unpinned_page) of
                        Inl e \<Rightarrow> Some (Inl e)
                      | Inr c \<Rightarrow>
                          let s2 = set_page s1 unpinned_fid (unpinned_page\<lparr>pin_count := c\<rparr>)
                          in if pin_count (pages s2 unpinned_fid) = 0
                             then (case Unpin (replacer s2) unpinned_fid of
                                     None \<Rightarrow> None
                                   | Some r \<Rightarrow> Some (Inr (True, release (s2\<lparr>replacer := r\<rparr>))))
                             else Some (Inr (True, release s2)))))"

section \<open>Executions\<close>

text \<open>
  The public operations of one instance. A step yields the state the call leaves behind, and
  \<open>None\<close> when the call does not return (it aborts or its loop does not end).
\<close>

datatype operation =
    OpFetch page_id_t
  | OpNew
  | OpUnpin page_id_t bool
  | OpFlush page_id_t
  | OpDelete page_id_t
  | OpFlushAll

definition step :: "operation \<Rightarrow> BufferPoolManagerInstance \<Rightarrow> BufferPoolManagerInstance option" where
  "step a s =
     (case a of
        OpFetch p \<Rightarrow> (case FetchPgImp s p of Inl e \<Rightarrow> None | Inr (r, s') \<Rightarrow> Some s')
      | OpNew \<Rightarrow> (case NewPgImp s of Inl e \<Rightarrow> None | Inr (r, s') \<Rightarrow> Some s')
      | OpUnpin p d \<Rightarrow>
          (case UnpinPgImp s p d of None \<Rightarrow> None | Some (Inl e) \<Rightarrow> None | Some (Inr (r, s')) \<Rightarrow> Some s')
      | OpFlush p \<Rightarrow> (case FlushPgImp s p of Inl e \<Rightarrow> None | Inr (r, s') \<Rightarrow> Some s')
      | OpDelete p \<Rightarrow> (case DeletePgImp s p of Inl e \<Rightarrow> None | Inr (r, s') \<Rightarrow> Some s')
      | OpFlushAll \<Rightarrow> (case FlushAllPgsImp s of Inl e \<Rightarrow> None | Inr s' \<Rightarrow> Some s'))"

fun run :: "operation list \<Rightarrow> BufferPoolManagerInstance \<Rightarrow> BufferPoolManagerInstance option" where
  "run [] s = Some s"
| "run (a # as) s = (case step a s of None \<Rightarrow> None | Some s' \<Rightarrow> run as s')"

text \<open>
  The page identifiers handed out by \<open>n\<close> consecutive calls of \<^verbatim>\<open>AllocatePage\<close>
  (\<^verbatim>\<open>NewPgImp\<close> makes one such call each time it is entered).
\<close>

fun allocs :: "nat \<Rightarrow> BufferPoolManagerInstance \<Rightarrow> error + (page_id_t list \<times> BufferPoolManagerInstance)" where
  "allocs 0 s = Inr ([], s)"
| "allocs (Suc n) s =
     (case AllocatePage s of
        Inl e \<Rightarrow> Inl e
      | Inr (p, s') \<Rightarrow>
          (case allocs n s' of
             Inl e \<Rightarrow> Inl e
           | Inr (ps, s'') \<Rightarrow> Inr (p # ps, s'')))"

inductive reachable :: "BufferPoolManagerInstance \<Rightarrow> bool" where
  reachable_init: "new_BufferPoolManagerInstance psize ninstances iindex dsk = Inr s \<Longrightarrow> reachable s"
| reachable_step: "reachable s \<Longrightarrow> step a s = Some s' \<Longrightarrow> reachable s'"

text \<open>
  A single instance (one shard, index 0) with the given number of frames, over a disk of
  zeroed pages, after a sequence of operations; \<open>None\<close> when a call does not return.
\<close>

definition scenario :: "64 word \<Rightarrow> operation list \<Rightarrow> BufferPoolManagerInstance option" where
  "scenario psize ops =
     (case new_BufferPoolManagerInstance psize 1 0 (\<lambda>_. replicate PAGE_SIZE 0) of
        Inl e \<Rightarrow> None
      | Inr s \<Rightarrow> run ops s)"

section \<open>Properties\<close>

text \<open>The list and the index of the replacer agree.\<close>

definition repl_ok :: "LRUReplacer \<Rightarrow> bool" where
  "repl_ok r \<longleftrightarrow> distinct (lru r) \<and> hashMap r = set (lru r)"

text \<open>No frame with a positive pin count is a candidate of the replacer.\<close>

definition no_pinned_candidate :: "BufferPoolManagerInstance \<Rightarrow> bool" where
  "no_pinned_candidate s \<longleftrightarrow> (\<forall>f \<in> set (lru (replacer s)). \<not> 0 < pin_count (pages s f))"

text \<open>
  The state in which the next replacement evicts a dirty page: the free list is empty, the
  replacer's victim is frame \<open>f\<close>, the scan of the page table finds a page identifier other
  than -1 for it, and the frame is dirty and holds page \<open>q\<close> with bytes \<open>d\<close>.
\<close>

definition dirty_victim :: "BufferPoolManagerInstance \<Rightarrow> frame_id_t \<Rightarrow> page_id_t \<Rightarrow> page_data \<Rightarrow> bool" where
  "dirty_victim s f q d \<longleftrightarrow>
     free_list s = [] \<and> lru (replacer s) \<noteq> [] \<and> last (lru (replacer s)) = f \<and>
     (case find (\<lambda>(pid, fid). fid = f) (page_table s) of None \<Rightarrow> False | Some (pid, fid) \<Rightarrow> pid \<noteq> - 1) \<and>
     is_dirty (pages s f) \<and> page_id (pages s f) = q \<and> data (pages s f) = d"

text \<open>
  The invariant of the reachable states: the replacer is consistent, its candidates have pin
  count 0, no pin count is negative, and a replacer of capacity 1 stays empty while every
  resident frame is pinned (with capacity 1 an \<^verbatim>\<open>Unpin\<close> that would insert never returns).
\<close>

definition pool_inv :: "BufferPoolManagerInstance \<Rightarrow> bool" where
  "pool_inv s \<longleftrightarrow>
     repl_ok (replacer s) \<and>
     (\<forall>f \<in> set (lru (replacer s)). pin_count (pages s f) = 0) \<and>
     (\<forall>f. 0 \<le> pin_count (pages s f)) \<and>
     (capacity (replacer s) = 1 \<longrightarrow>
        lru (replacer s) = [] \<and> (\<forall>(k, f) \<in> set (page_table s). 1 \<le> pin_count (pages s f)))"

section \<open>The replacer's loop\<close>

lemma Unpin_loop_exit: "\<not> unat (capacity r - 1) \<le> length (lru r) \<Longrightarrow> Unpin_loop r = Some r"
  by (subst Unpin_loop.simps) simp

lemma Unpin_loop_step:
  "unat (capacity r - 1) \<le> length (lru r) \<Longrightarrow> Unpin_loop r = Unpin_loop (snd (Victim r))"
  by (subst Unpin_loop.simps) simp

lemma Victim_capacity: "capacity (snd (Victim r)) = capacity r"
  by (simp add: Victim_def Let_def)

lemma Victim_repl_ok: "repl_ok r \<Longrightarrow> repl_ok (snd (Victim r))"
proof -
  assume ok: "repl_ok r"
  show ?thesis
  proof (cases "lru r = []")
    case True
    with ok show ?thesis by (simp add: Victim_def)
  next
    case False
    then have split: "lru r = butlast (lru r) @ [last (lru r)]" by simp
    from ok have "distinct (butlast (lru r) @ [last (lru r)])" using split by (simp add: repl_ok_def)
    then have "last (lru r) \<notin> set (butlast (lru r))" and "distinct (butlast (lru r))" by auto
    moreover have "set (lru r) = insert (last (lru r)) (set (butlast (lru r)))"
      using split by (metis list.simps(15) rotate1.simps(2) set_rotate1)
    ultimately show ?thesis using ok False
      by (auto simp: Victim_def Let_def repl_ok_def)
  qed
qed

lemma Victim_lru_subset: "set (lru (snd (Victim r))) \<subseteq> set (lru r)"
  by (auto simp: Victim_def Let_def dest: in_set_butlastD)

text \<open>With a capacity other than 1 the loop ends: it only drops candidates.\<close>

lemma Unpin_loop_terminates:
  "capacity r \<noteq> 1 \<Longrightarrow> repl_ok r \<Longrightarrow>
   \<exists>r'. Unpin_loop r = Some r' \<and> capacity r' = capacity r \<and> repl_ok r' \<and> set (lru r') \<subseteq> set (lru r)"
proof (induction "length (lru r)" arbitrary: r rule: less_induct)
  case less
  show ?case
  proof (cases "unat (capacity r - 1) \<le> length (lru r)")
    case False
    then show ?thesis using less.prems by (simp add: Unpin_loop_exit)
  next
    case True
    from less.prems(1) have "capacity r - 1 \<noteq> 0" by simp
    then have "0 < unat (capacity r - 1)" by (simp add: unat_gt_0)
    with True have ne: "lru r \<noteq> []" by auto
    let ?r1 = "snd (Victim r)"
    have "length (lru ?r1) < length (lru r)" using ne by (simp add: Victim_def Let_def)
    moreover have "capacity ?r1 \<noteq> 1" using less.prems(1) by (simp add: Victim_capacity)
    moreover have "repl_ok ?r1" using less.prems(2) by (rule Victim_repl_ok)
    ultimately obtain r' where r': "Unpin_loop ?r1 = Some r'" "capacity r' = capacity ?r1"
      "repl_ok r'" "set (lru r') \<subseteq> set (lru ?r1)"
      using less.hyps by blast
    then show ?thesis using True Victim_lru_subset [of r]
      by (auto simp: Unpin_loop_step Victim_capacity)
  qed
qed

text \<open>With capacity 1 the loop never ends.\<close>

lemma Unpin_loop_capacity: "Unpin_loop r = Some r' \<Longrightarrow> capacity r \<noteq> 1"
proof (rule Unpin_loop.raw_induct [where P = "\<lambda>r r'. capacity r \<noteq> 1"])
  fix loop :: "LRUReplacer \<Rightarrow> LRUReplacer option" and x y
  assume ih: "\<And>x y. loop x = Some y \<Longrightarrow> capacity x \<noteq> 1"
    and eq: "(if unat (capacity x - 1) \<le> length (lru x) then loop (snd (Victim x)) else Some x) = Some y"
  show "capacity x \<noteq> 1"
  proof (cases "unat (capacity x - 1) \<le> length (lru x)")
    case True
    with eq have "loop (snd (Victim x)) = Some y" by simp
    then have "capacity (snd (Victim x)) \<noteq> 1" by (rule ih)
    then show ?thesis by (simp add: Victim_capacity)
  next
    case False
    then show ?thesis by auto
  qed
qed

text \<open>The equations that evaluate the operations on a concrete pool.\<close>

lemmas exec_simps =
  scenario_def new_BufferPoolManagerInstance_def new_LRUReplacer_def new_Page_def step_def
  NewPgImp_def FetchPgImp_def DeletePgImp_def UnpinPgImp_def FlushPgImp_def AllocatePage_def
  FindReplacePolicy_def frame_indices_def set_page_def table_set_def table_erase_def table_find_def
  WritePage_def ReadPage_def DeallocatePage_def Pin_def Victim_def Unpin_def acquire_def release_def
  Unpin_loop_exit Unpin_loop_step pin_incr_def pin_decr_def INVALID_PAGE_ID_def Let_def upt_rec

section \<open>The replacer\<close>

text \<open>
  C1 (scenario S1 on the code). With three frames, after \<^verbatim>\<open>new\<close> three times (pages 0, 1
  and 2 in frames 0, 1 and 2) and unpinning pages 0, 1 and 2 in this order, the replacer holds
  only frames 2 and 1: the third \<^verbatim>\<open>Unpin\<close> finds \<^verbatim>\<open>lru.size() >= capacity - 1\<close> and drops
  frame 0. The next \<^verbatim>\<open>new\<close> succeeds with page 3 and evicts page 1, not page 0, the least
  recently unpinned page, which stays resident.
\<close>

theorem S1_evicts_page_1:
  "map_option (\<lambda>s. lru (replacer s))
     (scenario 3 [OpNew, OpNew, OpNew, OpUnpin 0 False, OpUnpin 1 False, OpUnpin 2 False]) = Some [2, 1]
   \<and> map_option page_table
     (scenario 3 [OpNew, OpNew, OpNew, OpUnpin 0 False, OpUnpin 1 False, OpUnpin 2 False, OpNew])
       = Some [(0, 0), (2, 2), (3, 1)]"
  by (simp add: exec_simps)

text \<open>
  C2 (the code at the failing input). A replacer of capacity 3 is created and frames 0, 1 and 2
  are unpinned in this order. After the first two calls it holds frames 1 and 0. The third call
  finds \<^verbatim>\<open>lru.size() >= capacity - 1\<close>, although the replacer is not full, and removes
  candidate 0 before it inserts frame 2: a candidate is silently discarded on unpin. (With a
  latch that is not re-entrant the third call blocks in \<^verbatim>\<open>Victim\<close> and frame 2 is not
  inserted at all.)
\<close>

theorem Unpin_discards_candidate:
  "Option.bind (Unpin (new_LRUReplacer 3) 0) (\<lambda>r. Unpin r 1)
     = Some \<lparr>capacity = 3, lru = [1, 0], hashMap = {1, 0}\<rparr> \<and>
   Option.bind (Option.bind (Unpin (new_LRUReplacer 3) 0) (\<lambda>r. Unpin r 1)) (\<lambda>r. Unpin r 2)
     = Some \<lparr>capacity = 3, lru = [2, 1], hashMap = {2, 1}\<rparr>"
  by (simp add: new_LRUReplacer_def Unpin_def Unpin_loop_exit Unpin_loop_step Victim_def Let_def
      insert_Diff_if)

text \<open>
  Where the loop is not entered, \<^verbatim>\<open>Unpin\<close> does what its contract says: nothing for a frame
  that is already a candidate, and an insertion at the most-recent end otherwise.
\<close>

lemma Unpin_loop_not_entered:
  "(f \<in> hashMap r \<longrightarrow> Unpin r f = Some r) \<and>
   (f \<notin> hashMap r \<and> \<not> unat (capacity r - 1) \<le> length (lru r) \<longrightarrow>
      Unpin r f = Some (r\<lparr>lru := f # lru r, hashMap := insert f (hashMap r)\<rparr>))"
  by (simp add: Unpin_def Unpin_loop_exit)

section \<open>The invariant of the pool\<close>

lemma pool_inv_init:
  "new_BufferPoolManagerInstance psize ninstances iindex dsk = Inr s \<Longrightarrow> pool_inv s"
  by (auto simp: new_BufferPoolManagerInstance_def pool_inv_def repl_ok_def new_LRUReplacer_def
      new_Page_def split: if_splits)

lemma Pin_props:
  "repl_ok r \<Longrightarrow>
   repl_ok (Pin r f) \<and> capacity (Pin r f) = capacity r \<and> set (lru (Pin r f)) = set (lru r) - {f}"
  by (auto simp: Pin_def repl_ok_def)

lemma Unpin_props:
  assumes "repl_ok r" and "Unpin r f = Some r'"
  shows "repl_ok r' \<and> capacity r' = capacity r \<and> set (lru r') \<subseteq> insert f (set (lru r)) \<and>
         (capacity r = 1 \<longrightarrow> r' = r \<and> f \<in> hashMap r)"
proof (cases "f \<in> hashMap r")
  case True
  with assms show ?thesis by (auto simp: Unpin_def)
next
  case False
  with assms(2) obtain r1 where loop: "Unpin_loop r = Some r1"
    and r': "r' = r1\<lparr>lru := f # lru r1, hashMap := insert f (hashMap r1)\<rparr>"
    by (auto simp: Unpin_def split: option.splits)
  from loop have c: "capacity r \<noteq> 1" by (rule Unpin_loop_capacity)
  with assms(1) loop have "capacity r1 = capacity r" "repl_ok r1" "set (lru r1) \<subseteq> set (lru r)"
    using Unpin_loop_terminates [of r] by auto
  with False assms(1) c r' show ?thesis
    by (auto simp: repl_ok_def)
qed

lemma set_delete_subset: "set (AList.delete k al) \<subseteq> set al"
  by (auto simp: AList.delete_eq)

lemma set_update_subset: "set (AList.update k v al) \<subseteq> insert (k, v) (set al)"
  by (induction al) (auto split: if_splits)

lemma FindReplacePolicy_inv:
  assumes "pool_inv s" and "FindReplacePolicy s = (res, s')"
  shows "pool_inv s'"
proof (cases "free_list s")
  case (Cons f rest)
  with assms show ?thesis by (auto simp: FindReplacePolicy_def pool_inv_def)
next
  case Nil
  show ?thesis
  proof (cases "lru (replacer s) = []")
    case True
    with Nil assms show ?thesis by (auto simp: FindReplacePolicy_def pool_inv_def Victim_def)
  next
    case False
    let ?r = "snd (Victim (replacer s))"
    from assms(1) have ok: "repl_ok ?r" by (simp add: pool_inv_def Victim_repl_ok)
    have sub: "set (lru ?r) \<subseteq> set (lru (replacer s))" by (rule Victim_lru_subset)
    have cap: "capacity ?r = capacity (replacer s)" by (rule Victim_capacity)
    from False assms(1) have c1: "capacity (replacer s) \<noteq> 1" by (auto simp: pool_inv_def)
    have r: "replacer s' = ?r"
      using assms(2) Nil False
      by (auto simp: FindReplacePolicy_def Victim_def Let_def table_erase_def set_page_def WritePage_def
          split: if_splits option.splits)
    have p: "\<forall>g. pin_count (pages s' g) = pin_count (pages s g) \<or> pin_count (pages s' g) = 0"
      using assms(2) Nil False
      by (auto simp: FindReplacePolicy_def Victim_def Let_def table_erase_def set_page_def WritePage_def
          split: if_splits option.splits)
    have 2: "\<forall>f \<in> set (lru ?r). pin_count (pages s' f) = 0"
    proof
      fix f assume "f \<in> set (lru ?r)"
      with sub assms(1) have "pin_count (pages s f) = 0" by (auto simp: pool_inv_def)
      with p show "pin_count (pages s' f) = 0" by metis
    qed
    have 3: "\<forall>f. 0 \<le> pin_count (pages s' f)"
      using p assms(1) by (metis order_refl pool_inv_def)
    show ?thesis using ok 2 3 c1 cap r by (simp add: pool_inv_def)
  qed
qed


lemma pool_inv_same_pins:
  assumes "pool_inv s" and "replacer s' = replacer s"
    and "\<forall>g. pin_count (pages s' g) = pin_count (pages s g)"
    and "set (page_table s') \<subseteq> set (page_table s)"
  shows "pool_inv s'"
  using assms unfolding pool_inv_def by (auto 4 3)

lemma pool_inv_pin:
  assumes "pool_inv s" and "replacer s' = Pin (replacer s) f" and "pages s' = (pages s)(f := pg)"
    and "1 \<le> pin_count pg" and "set (page_table s') \<subseteq> insert (k, f) (set (page_table s))"
  shows "pool_inv s'"
proof -
  from assms(1) have ok: "repl_ok (replacer s)" by (simp add: pool_inv_def)
  note P = Pin_props [OF ok, of f]
  have 1: "repl_ok (replacer s')" using P assms(2) by simp
  have 2: "\<forall>g \<in> set (lru (replacer s')). pin_count (pages s' g) = 0"
    using P assms(1,2,3) by (auto simp: pool_inv_def)
  have 3: "\<forall>g. 0 \<le> pin_count (pages s' g)"
    using assms(1,3,4) by (auto simp: pool_inv_def)
  have 4: "capacity (replacer s') = 1 \<longrightarrow>
        lru (replacer s') = [] \<and> (\<forall>(k, g) \<in> set (page_table s'). 1 \<le> pin_count (pages s' g))"
  proof
    assume "capacity (replacer s') = 1"
    with P assms(2) have c: "capacity (replacer s) = 1" by simp
    with assms(1) have e: "lru (replacer s) = []"
      and t: "\<forall>(k, g) \<in> set (page_table s). 1 \<le> pin_count (pages s g)"
      by (auto simp: pool_inv_def)
    from e P assms(2) have "lru (replacer s') = []" by simp
    moreover have "\<forall>(k, g) \<in> set (page_table s'). 1 \<le> pin_count (pages s' g)"
      using t assms(3,4,5) by auto
    ultimately show "lru (replacer s') = [] \<and> (\<forall>(k, g) \<in> set (page_table s'). 1 \<le> pin_count (pages s' g))"
      by simp
  qed
  from 1 2 3 4 show ?thesis unfolding pool_inv_def by blast
qed

lemma pool_inv_unpin:
  assumes "pool_inv s" and "Unpin (replacer s) f = Some r" and "replacer s' = r"
    and "pin_count (pages s' f) = 0"
    and "\<forall>g. g \<noteq> f \<longrightarrow> pin_count (pages s' g) = pin_count (pages s g)"
    and "set (page_table s') \<subseteq> set (page_table s)"
  shows "pool_inv s'"
proof -
  from assms(1) have ok: "repl_ok (replacer s)" by (simp add: pool_inv_def)
  note U = Unpin_props [OF ok assms(2)]
  have c: "capacity (replacer s) \<noteq> 1"
  proof
    assume "capacity (replacer s) = 1"
    with U assms(1) ok show False by (auto simp: pool_inv_def repl_ok_def)
  qed
  have 2: "\<forall>g \<in> set (lru (replacer s')). pin_count (pages s' g) = 0"
  proof
    fix g assume "g \<in> set (lru (replacer s'))"
    with U assms(3) have "g = f \<or> g \<in> set (lru (replacer s))" by auto
    then show "pin_count (pages s' g) = 0"
      using assms(1,4,5) by (auto simp: pool_inv_def)
  qed
  have 3: "\<forall>g. 0 \<le> pin_count (pages s' g)"
    using assms(1,4,5) by (metis order_refl pool_inv_def)
  from U c 2 3 assms(3) show ?thesis unfolding pool_inv_def by simp
qed

lemma pool_inv_decr:
  assumes "pool_inv s" and "replacer s' = replacer s" and "page_table s' = page_table s"
    and "pin_count (pages s f) \<noteq> 0" and "1 \<le> pin_count (pages s' f)"
    and "\<forall>g. g \<noteq> f \<longrightarrow> pin_count (pages s' g) = pin_count (pages s g)"
  shows "pool_inv s'"
proof -
  from assms(1,4) have nf: "f \<notin> set (lru (replacer s))" by (auto simp: pool_inv_def)
  have 2: "\<forall>g \<in> set (lru (replacer s')). pin_count (pages s' g) = 0"
    using nf assms(1,2,6) by (auto simp: pool_inv_def)
  have 3: "\<forall>g. 0 \<le> pin_count (pages s' g)"
  proof
    fix g show "0 \<le> pin_count (pages s' g)"
      using assms(1,5,6) by (cases "g = f") (auto simp: pool_inv_def)
  qed
  have 4: "capacity (replacer s') = 1 \<longrightarrow>
        lru (replacer s') = [] \<and> (\<forall>(k, g) \<in> set (page_table s'). 1 \<le> pin_count (pages s' g))"
  proof (intro impI conjI)
    assume c: "capacity (replacer s') = 1"
    with assms(1,2) show "lru (replacer s') = []" by (simp add: pool_inv_def)
    from c assms(1,2) have t: "\<forall>(k, g) \<in> set (page_table s). 1 \<le> pin_count (pages s g)"
      by (simp add: pool_inv_def)
    show "\<forall>(k, g) \<in> set (page_table s'). 1 \<le> pin_count (pages s' g)"
    proof (clarify)
      fix k g assume "(k, g) \<in> set (page_table s')"
      with t assms(3) have "1 \<le> pin_count (pages s g)" by auto
      then show "1 \<le> pin_count (pages s' g)" using assms(5,6) by (cases "g = f") auto
    qed
  qed
  from assms(1,2) have "repl_ok (replacer s')" by (simp add: pool_inv_def)
  with 2 3 4 show ?thesis unfolding pool_inv_def by blast
qed


lemma pool_inv_latch [simp]: "pool_inv (s\<lparr>latch := b\<rparr>) = pool_inv s"
  by (simp add: pool_inv_def)

lemma pool_inv_release [simp]: "pool_inv (release s) = pool_inv s"
  by (simp add: release_def)

lemma latch_release [simp]: "latch (release s) = False"
  by (simp add: release_def)

lemma acquire_free: "\<not> latch s \<Longrightarrow> acquire s = Inr (s\<lparr>latch := True\<rparr>)"
  by (simp add: acquire_def)

lemma acquire_held: "latch s \<Longrightarrow> acquire s = Inl Deadlock"
  by (simp add: acquire_def)

lemma AllocatePage_fields:
  "AllocatePage s = Inr (p, s1) \<Longrightarrow>
   p = next_page_id s \<and> s1 = s\<lparr>next_page_id := next_page_id s + num_instances s\<rparr>"
  by (auto simp: AllocatePage_def Let_def split: if_splits)

lemma NewPgImp_inv:
  assumes "pool_inv s" and "NewPgImp s = Inr (res, s')"
  shows "pool_inv s' \<and> \<not> latch s'"
proof -
  from assms(2) have nl: "\<not> latch s" by (auto simp: NewPgImp_def acquire_def split: if_splits)
  let ?s0 = "s\<lparr>latch := True\<rparr>"
  from nl have aq: "acquire s = Inr ?s0" by (rule acquire_free)
  from assms(2) aq obtain p s1 where a: "AllocatePage ?s0 = Inr (p, s1)"
    by (auto simp: NewPgImp_def split: sum.splits)
  then have s1: "s1 = ?s0\<lparr>next_page_id := next_page_id ?s0 + num_instances ?s0\<rparr>"
    by (rule AllocatePage_fields [THEN conjunct2])
  with assms(1) have i1: "pool_inv s1" by (simp add: pool_inv_def)
  show ?thesis
  proof (cases "list_all (\<lambda>i. pin_count (pages s1 i) \<noteq> 0) (frame_indices s1)")
    case True
    with assms(2) aq a i1 show ?thesis by (auto simp: NewPgImp_def Let_def)
  next
    case False
    obtain r2 s2 where f: "FindReplacePolicy s1 = (r2, s2)" by (cases "FindReplacePolicy s1")
    with i1 have i2: "pool_inv s2" by (rule FindReplacePolicy_inv)
    show ?thesis
    proof (cases r2)
      case None
      with assms(2) aq a f False i2 show ?thesis by (auto simp: NewPgImp_def Let_def)
    next
      case (Some v)
      from i2 have nn: "0 \<le> pin_count (pages s2 v)" by (simp add: pool_inv_def)
      from assms(2) aq a f False Some obtain c where c: "pin_incr (pin_count (pages s2 v)) = Inr c"
        by (auto simp: NewPgImp_def Let_def split: sum.splits)
      with nn have c1: "1 \<le> c" by (auto simp: pin_incr_def split: if_splits)
      from assms(2) aq a f False Some c
      have r: "replacer s' = Pin (replacer s2) v"
        and pg: "pages s' = (pages s2)(v := (pages s2 v)\<lparr>page_id := p, pin_count := c, is_dirty := False\<rparr>)"
        and t: "page_table s' = AList.update p v (page_table s2)"
        and l: "\<not> latch s'"
        by (auto simp: NewPgImp_def Let_def set_page_def table_set_def WritePage_def release_def)
      have "set (page_table s') \<subseteq> insert (p, v) (set (page_table s2))"
        unfolding t by (rule set_update_subset)
      with c1 have "pool_inv s'"
        by (intro pool_inv_pin [OF i2 r pg]) simp_all
      with l show ?thesis by simp
    qed
  qed
qed

lemma FetchPgImp_inv:
  assumes "pool_inv s" and "FetchPgImp s pid = Inr (res, s')"
  shows "pool_inv s' \<and> \<not> latch s'"
proof -
  from assms(2) have nl: "\<not> latch s" by (auto simp: FetchPgImp_def acquire_def split: if_splits)
  let ?s0 = "s\<lparr>latch := True\<rparr>"
  from nl have aq: "acquire s = Inr ?s0" by (rule acquire_free)
  from assms(1) have i0: "pool_inv ?s0" by simp
  show ?thesis
  proof (cases "table_find ?s0 pid")
    case (Some v)
    from i0 have nn: "0 \<le> pin_count (pages ?s0 v)" by (simp add: pool_inv_def)
    from assms(2) aq Some obtain c where c: "pin_incr (pin_count (pages ?s0 v)) = Inr c"
      by (auto simp: FetchPgImp_def Let_def split: sum.splits)
    with nn have c1: "1 \<le> c" by (auto simp: pin_incr_def split: if_splits)
    from assms(2) aq Some c
    have r: "replacer s' = Pin (replacer ?s0) v"
      and pg: "pages s' = (pages ?s0)(v := (pages ?s0 v)\<lparr>pin_count := c\<rparr>)"
      and t: "page_table s' = page_table ?s0"
      and l: "\<not> latch s'"
      by (auto simp: FetchPgImp_def Let_def set_page_def release_def)
    have "set (page_table s') \<subseteq> insert (pid, v) (set (page_table ?s0))"
      unfolding t by auto
    with c1 have "pool_inv s'"
      by (intro pool_inv_pin [OF i0 r pg]) simp_all
    with l show ?thesis by simp
  next
    case None
    obtain r1 s1 where f: "FindReplacePolicy ?s0 = (r1, s1)" by (cases "FindReplacePolicy ?s0")
    with i0 have i1: "pool_inv s1" by (rule FindReplacePolicy_inv)
    show ?thesis
    proof (cases r1)
      case None
      with assms(2) aq \<open>table_find ?s0 pid = None\<close> f i1 show ?thesis by (auto simp: FetchPgImp_def)
    next
      case (Some v)
      from i1 have nn: "0 \<le> pin_count (pages s1 v)" by (simp add: pool_inv_def)
      from assms(2) aq \<open>table_find ?s0 pid = None\<close> f Some
      obtain c where c: "pin_incr (pin_count (pages s1 v)) = Inr c"
        by (auto simp: FetchPgImp_def Let_def ReadPage_def set_page_def table_set_def table_erase_def
            WritePage_def split: sum.splits if_splits)
      with nn have c1: "1 \<le> c" by (auto simp: pin_incr_def split: if_splits)
      from assms(2) aq \<open>table_find ?s0 pid = None\<close> f Some c
      have r: "replacer s' = Pin (replacer s1) v"
        and pg: "pages s' = (pages s1)(v := (pages s1 v)\<lparr>data := disk s' pid, page_id := pid,
                   pin_count := c, is_dirty := False\<rparr>)"
        and t: "page_table s' = AList.update pid v (AList.delete (page_id (pages s1 v)) (page_table s1))"
        and l: "\<not> latch s'"
        by (auto simp: FetchPgImp_def Let_def ReadPage_def set_page_def table_set_def table_erase_def
            WritePage_def release_def split: if_splits)
      have "set (page_table s') \<subseteq> insert (pid, v) (set (page_table s1))"
        unfolding t using set_update_subset [of pid v] set_delete_subset [of _ "page_table s1"] by blast
      with c1 have "pool_inv s'"
        by (intro pool_inv_pin [OF i1 r pg]) simp_all
      with l show ?thesis by simp
    qed
  qed
qed

lemma FlushPgImp_fields:
  "FlushPgImp s p = Inr (res, s') \<Longrightarrow>
   replacer s' = replacer s \<and> pages s' = pages s \<and> page_table s' = page_table s \<and>
   free_list s' = free_list s \<and> pool_size s' = pool_size s \<and> \<not> latch s'"
  by (auto simp: FlushPgImp_def WritePage_def acquire_def release_def table_find_def
      split: option.splits if_splits)

lemma FlushPgImp_inv:
  assumes "pool_inv s" and "FlushPgImp s p = Inr (res, s')"
  shows "pool_inv s' \<and> \<not> latch s'"
proof -
  note F = FlushPgImp_fields [OF assms(2)]
  have "pool_inv s'" by (rule pool_inv_same_pins [OF assms(1)]) (simp_all add: F)
  with F show ?thesis by simp
qed

lemma FlushAllPgsImp_inv:
  assumes "pool_inv s" and "\<not> latch s" and "FlushAllPgsImp s = Inr s'"
  shows "pool_inv s' \<and> \<not> latch s'"
proof -
  let ?g = "\<lambda>i r. case r of
                   Inl e \<Rightarrow> Inl e
                 | Inr s' \<Rightarrow> map_sum id snd (FlushPgImp s' (page_id (pages s' i)))"
  have err: "fold ?g xs (Inl e) = Inl e" for xs e
    by (induction xs) simp_all
  have "pool_inv s \<Longrightarrow> \<not> latch s \<Longrightarrow> fold ?g xs (Inr s) = Inr s' \<Longrightarrow> pool_inv s' \<and> \<not> latch s'" for xs s
  proof (induction xs arbitrary: s)
    case Nil
    then show ?case by simp
  next
    case (Cons x xs)
    show ?case
    proof (cases "FlushPgImp s (page_id (pages s x))")
      case (Inl e)
      with Cons.prems(3) show ?thesis by (simp add: err)
    next
      case (Inr rs)
      obtain res s1 where rs: "rs = (res, s1)" by (cases rs)
      with Inr Cons.prems(1) have "pool_inv s1 \<and> \<not> latch s1" by (auto dest: FlushPgImp_inv)
      moreover from Inr rs Cons.prems(3) have "fold ?g xs (Inr s1) = Inr s'" by simp
      ultimately show ?thesis using Cons.IH by blast
    qed
  qed
  with assms show ?thesis by (simp add: FlushAllPgsImp_def)
qed

lemma DeletePgImp_dirty:
  "\<not> latch s \<Longrightarrow> table_find s pid = Some f \<Longrightarrow> \<not> 0 < pin_count (pages s f) \<Longrightarrow>
   is_dirty (pages s f) \<Longrightarrow> DeletePgImp s pid = Inl Deadlock"
  by (simp add: DeletePgImp_def FlushPgImp_def acquire_def table_find_def)

lemma DeletePgImp_inv:
  assumes "pool_inv s" and "DeletePgImp s pid = Inr (res, s')"
  shows "pool_inv s' \<and> \<not> latch s'"
proof -
  from assms(2) have nl: "\<not> latch s" by (auto simp: DeletePgImp_def acquire_def split: if_splits)
  let ?s0 = "s\<lparr>latch := True\<rparr>"
  from nl have aq: "acquire s = Inr ?s0" by (rule acquire_free)
  show ?thesis
  proof (cases "table_find ?s0 pid")
    case None
    with assms aq show ?thesis by (auto simp: DeletePgImp_def)
  next
    case (Some v)
    show ?thesis
    proof (cases "0 < pin_count (pages s v)")
      case True
      with Some assms aq show ?thesis by (auto simp: DeletePgImp_def)
    next
      case False
      with assms(1) have z: "pin_count (pages s v) = 0"
        by (auto simp: pool_inv_def dest: spec [of _ v])
      have nd: "\<not> is_dirty (pages s v)"
      proof
        assume "is_dirty (pages s v)"
        with nl Some False have "DeletePgImp s pid = Inl Deadlock"
          by (intro DeletePgImp_dirty [of s pid v]) (simp_all add: table_find_def)
        with assms(2) show False by simp
      qed
      from assms(2) aq Some False nd
      have r: "replacer s' = replacer s"
        and pg: "\<forall>g. pin_count (pages s' g) = pin_count (pages s g)"
        and t: "page_table s' = AList.delete pid (page_table s)"
        and l: "\<not> latch s'"
        using z
        by (auto simp: DeletePgImp_def Let_def set_page_def table_erase_def DeallocatePage_def release_def)
      have "pool_inv s'"
        by (rule pool_inv_same_pins [OF assms(1) r pg]) (simp add: t set_delete_subset)
      with l show ?thesis by simp
    qed
  qed
qed

lemma UnpinPgImp_inv:
  assumes "pool_inv s" and "UnpinPgImp s pid d = Some (Inr (res, s'))"
  shows "pool_inv s' \<and> \<not> latch s'"
proof -
  from assms(2) have nl: "\<not> latch s" by (auto simp: UnpinPgImp_def acquire_def split: if_splits)
  let ?s0 = "s\<lparr>latch := True\<rparr>"
  from nl have aq: "acquire s = Inr ?s0" by (rule acquire_free)
  from assms(1) have i0: "pool_inv ?s0" by simp
  show ?thesis
  proof (cases "table_find ?s0 pid")
    case None
    with assms aq show ?thesis by (auto simp: UnpinPgImp_def)
  next
    case (Some v)
    let ?s1 = "if d then set_page ?s0 v ((pages ?s0 v)\<lparr>is_dirty := True\<rparr>) else ?s0"
    have i1: "pool_inv ?s1"
      by (rule pool_inv_same_pins [OF i0]) (simp_all add: set_page_def)
    have pin1: "\<And>g. pin_count (pages ?s1 g) = pin_count (pages s g)"
      by (simp_all add: set_page_def)
    show ?thesis
    proof (cases "pin_count (pages s v) = 0")
      case True
      with assms(2) aq Some obtain r where u: "Unpin (replacer ?s1) v = Some r"
        and s': "s' = release (?s1\<lparr>replacer := r\<rparr>)"
        by (auto simp: UnpinPgImp_def Let_def set_page_def split: option.splits if_splits)
      have "pool_inv s'"
        by (rule pool_inv_unpin [OF i1 u, of s'])
           (use s' True pin1 in \<open>auto simp: set_page_def release_def\<close>)
      with s' show ?thesis by simp
    next
      case False
      from assms(1) have "0 \<le> pin_count (pages s v)" by (simp add: pool_inv_def)
      with False have pos: "1 \<le> pin_count (pages s v)" by simp
      then have dec: "pin_decr (pin_count (pages ?s1 v)) = Inr (pin_count (pages s v) - 1)"
        by (simp add: pin_decr_def set_page_def)
      let ?s2 = "set_page ?s1 v ((pages ?s1 v)\<lparr>pin_count := pin_count (pages s v) - 1\<rparr>)"
      show ?thesis
      proof (cases "pin_count (pages s v) - 1 = 0")
        case True
        with assms(2) aq Some False dec
        obtain r where u: "Unpin (replacer ?s1) v = Some r" and s': "s' = release (?s2\<lparr>replacer := r\<rparr>)"
          by (auto simp: UnpinPgImp_def Let_def set_page_def split: option.splits if_splits)
        have "pool_inv s'"
          by (rule pool_inv_unpin [OF i1 u, of s'])
             (use s' True pin1 in \<open>auto simp: set_page_def release_def\<close>)
        with s' show ?thesis by simp
      next
        case nz: False
        with assms(2) aq Some False dec have s': "s' = release ?s2"
          by (auto simp: UnpinPgImp_def Let_def set_page_def split: option.splits if_splits)
        have "pool_inv s'"
          by (rule pool_inv_decr [OF assms(1), of s' v])
             (use s' nz pos False in \<open>auto simp: set_page_def release_def\<close>)
        with s' show ?thesis by simp
      qed
    qed
  qed
qed

lemma step_inv:
  assumes "pool_inv s \<and> \<not> latch s" and "step a s = Some s'"
  shows "pool_inv s' \<and> \<not> latch s'"
proof (cases a)
  case (OpFetch p)
  with assms show ?thesis
    by (auto simp: step_def split: sum.splits dest: FetchPgImp_inv)
next
  case OpNew
  with assms show ?thesis
    by (auto simp: step_def split: sum.splits dest: NewPgImp_inv)
next
  case (OpUnpin p d)
  with assms show ?thesis
    by (auto simp: step_def split: sum.splits option.splits dest: UnpinPgImp_inv)
next
  case (OpFlush p)
  with assms show ?thesis
    by (auto simp: step_def split: sum.splits dest: FlushPgImp_inv)
next
  case (OpDelete p)
  with assms show ?thesis
    by (auto simp: step_def split: sum.splits dest: DeletePgImp_inv)
next
  case OpFlushAll
  with assms show ?thesis
    by (auto simp: step_def split: sum.splits dest: FlushAllPgsImp_inv)
qed

lemma reachable_inv: "reachable s \<Longrightarrow> pool_inv s \<and> \<not> latch s"
proof (induction rule: reachable.induct)
  case (reachable_init psize ninstances iindex dsk s)
  then show ?case
    by (auto simp: pool_inv_init new_BufferPoolManagerInstance_def split: if_splits)
next
  case (reachable_step s a s')
  from reachable_step.IH reachable_step.hyps(2) show ?case by (rule step_inv)
qed

lemma run_reachable: "reachable s \<Longrightarrow> run ops s = Some s' \<Longrightarrow> reachable s'"
  by (induction ops arbitrary: s) (auto split: option.splits intro: reachable_step)

lemma scenario_reachable: "scenario psize ops = Some s \<Longrightarrow> reachable s"
  by (auto simp: scenario_def split: sum.splits intro: run_reachable reachable_init)

lemma pool_inv_no_pinned_candidate: "pool_inv s \<Longrightarrow> no_pinned_candidate s"
  by (simp add: pool_inv_def no_pinned_candidate_def)

lemma release_acquire: "\<not> latch s \<Longrightarrow> release (s\<lparr>latch := True\<rparr>) = s"
  by (cases s) (simp add: release_def)

text \<open>
  C4. In every state reachable from the constructor by the public operations, and in the state
  any public operation (fetch, new_page, unpin, flush, delete, flush_all) leaves behind from
  there, no frame with pin count > 0 is a candidate in the replacer.
\<close>

theorem no_pinned_frame_in_replacer:
  "reachable s \<Longrightarrow>
   no_pinned_candidate s \<and> (\<forall>a s'. step a s = Some s' \<longrightarrow> no_pinned_candidate s')"
proof -
  assume "reachable s"
  then have inv: "pool_inv s \<and> \<not> latch s" by (rule reachable_inv)
  then have "no_pinned_candidate s" by (simp add: pool_inv_no_pinned_candidate)
  moreover have "no_pinned_candidate s'" if "step a s = Some s'" for a s'
    using step_inv [OF inv that] by (simp add: pool_inv_no_pinned_candidate)
  ultimately show ?thesis by blast
qed

theorem no_pinned_frame_in_replacer_witness:
  "lru (replacer (the (scenario 3 [OpNew, OpNew, OpUnpin 0 False]))) = [0] \<and>
   no_pinned_candidate (the (scenario 3 [OpNew, OpNew, OpUnpin 0 False])) \<and>
   lru (replacer (the (step (OpFetch 0) (the (scenario 3 [OpNew, OpNew, OpUnpin 0 False]))))) = [] \<and>
   no_pinned_candidate (the (step (OpFetch 0) (the (scenario 3 [OpNew, OpNew, OpUnpin 0 False]))))"
proof -
  let ?S = "the (scenario 3 [OpNew, OpNew, OpUnpin 0 False])"
  have "scenario 3 [OpNew, OpNew, OpUnpin 0 False] = Some ?S" by (simp add: exec_simps)
  then have r: "reachable ?S" by (rule scenario_reachable)
  have st: "step (OpFetch 0) ?S = Some (the (step (OpFetch 0) ?S))" by (simp add: exec_simps)
  from no_pinned_frame_in_replacer [OF r] st
  have "no_pinned_candidate ?S \<and> no_pinned_candidate (the (step (OpFetch 0) ?S))" by blast
  moreover have "lru (replacer ?S) = [0]" by (simp add: exec_simps)
  moreover have "lru (replacer (the (step (OpFetch 0) ?S))) = []" by (simp add: exec_simps)
  ultimately show ?thesis by simp
qed

text \<open>
  C9. In every reachable state, for a resident page whose pin count is already zero,
  \<^verbatim>\<open>UnpinPgImp\<close> returns \<^verbatim>\<open>false\<close> and leaves every pin count unchanged (so it never
  becomes negative). The witness is scenario S4: with three frames, after \<^verbatim>\<open>new\<close> (page 0)
  and a first unpin of page 0, the second unpin returns \<^verbatim>\<open>false\<close>.
\<close>

theorem double_unpin_returns_false:
  assumes "reachable s" and "table_find s p = Some f" and "pin_count (pages s f) = 0"
  shows "\<exists>s'. UnpinPgImp s p d = Some (Inr (False, s')) \<and> pin_count (pages s' f) = 0 \<and>
              (\<forall>g. pin_count (pages s' g) = pin_count (pages s g)) \<and> page_table s' = page_table s"
proof -
  from assms(1) have inv: "pool_inv s" and nl: "\<not> latch s" by (auto dest: reachable_inv)
  from assms(2) have "(p, f) \<in> set (page_table s)" by (auto simp: table_find_def dest: map_of_SomeD)
  with inv assms(3) have c: "capacity (replacer s) \<noteq> 1" by (auto simp: pool_inv_def)
  from inv have ok: "repl_ok (replacer s)" by (simp add: pool_inv_def)
  obtain r1 where "Unpin_loop (replacer s) = Some r1"
    using Unpin_loop_terminates [OF c ok] by blast
  then obtain r where u: "Unpin (replacer s) f = Some r"
    by (cases "f \<in> hashMap (replacer s)") (simp_all add: Unpin_def)
  let ?s0 = "s\<lparr>latch := True\<rparr>"
  let ?s1 = "if d then set_page ?s0 f ((pages ?s0 f)\<lparr>is_dirty := True\<rparr>) else ?s0"
  from u assms(2,3) nl have "UnpinPgImp s p d = Some (Inr (False, release (?s1\<lparr>replacer := r\<rparr>)))"
    by (simp add: UnpinPgImp_def acquire_def Let_def set_page_def table_find_def)
  moreover have "pin_count (pages (release (?s1\<lparr>replacer := r\<rparr>)) g) = pin_count (pages s g)" for g
    by (simp add: set_page_def release_def)
  moreover have "page_table (release (?s1\<lparr>replacer := r\<rparr>)) = page_table s"
    by (simp add: set_page_def release_def)
  ultimately show ?thesis using assms(3)
    by (intro exI [of _ "release (?s1\<lparr>replacer := r\<rparr>)"]) simp
qed

theorem double_unpin_returns_false_witness:
  "table_find (the (scenario 3 [OpNew, OpUnpin 0 False])) 0 = Some 0 \<and>
   pin_count (pages (the (scenario 3 [OpNew, OpUnpin 0 False])) 0) = 0 \<and>
   (\<exists>s'. UnpinPgImp (the (scenario 3 [OpNew, OpUnpin 0 False])) 0 False = Some (Inr (False, s')) \<and>
         pin_count (pages s' 0) = 0)"
proof -
  let ?S = "the (scenario 3 [OpNew, OpUnpin 0 False])"
  have "scenario 3 [OpNew, OpUnpin 0 False] = Some ?S" by (simp add: exec_simps)
  then have r: "reachable ?S" by (rule scenario_reachable)
  have t: "table_find ?S 0 = Some 0" by (simp add: exec_simps)
  have z: "pin_count (pages ?S 0) = 0" by (simp add: exec_simps)
  from double_unpin_returns_false [OF r t z, of False] t z show ?thesis by blast
qed

section \<open>Deleting, evicting and the sentinel\<close>




lemma FindReplacePolicy_dirty_victim:
  assumes "dirty_victim s f q d"
  shows "\<exists>s'. FindReplacePolicy s = (Some f, s') \<and> trace s' = trace s @ [DiskWrite q d, TableErase q] \<and>
              pages s' f = (pages s f)\<lparr>pin_count := 0\<rparr> \<and> free_list s' = []"
  using assms
  by (auto simp: dirty_victim_def FindReplacePolicy_def Victim_def Let_def set_page_def WritePage_def
      table_erase_def split: option.splits list.splits)

lemma dirty_victim_latch [simp]: "dirty_victim (s\<lparr>latch := b\<rparr>) f q d = dirty_victim s f q d"
  by (simp add: dirty_victim_def)

text \<open>
  The eviction half of the dirty-page rule, for operations entered with the latch free:
  whenever a fetch miss or \<^verbatim>\<open>new_page\<close> takes a dirty frame as victim, a write of the
  frame's previous page identifier with its bytes is issued before the table entry is erased
  and before the read of the newly resident page. The calls added to the trace are exactly the
  listed ones.
\<close>

lemma dirty_victim_written_before_erased:
  "(\<not> latch s \<and> table_find s p = None \<and> dirty_victim s f q d \<longrightarrow>
      (\<exists>s'. FetchPgImp s p = Inr (Some f, s') \<and>
            trace s' = trace s @ [DiskWrite q d, TableErase q, DiskWrite q d, TableErase q, DiskRead p])) \<and>
   (\<not> latch s \<and> AllocatePage s = Inr (p, s1) \<and>
    \<not> list_all (\<lambda>i. pin_count (pages s i) \<noteq> 0) (frame_indices s) \<and> dirty_victim s f q d \<longrightarrow>
      (\<exists>s'. NewPgImp s = Inr (Some (p, f), s') \<and>
            trace s' = trace s @ [DiskWrite q d, TableErase q, DiskWrite p d]))"
proof (intro conjI impI)
  assume a: "\<not> latch s \<and> table_find s p = None \<and> dirty_victim s f q d"
  let ?s0 = "s\<lparr>latch := True\<rparr>"
  from a have "dirty_victim ?s0 f q d" by simp
  then obtain s1 where f: "FindReplacePolicy ?s0 = (Some f, s1)"
    and t: "trace s1 = trace ?s0 @ [DiskWrite q d, TableErase q]"
    and pg: "pages s1 f = (pages ?s0 f)\<lparr>pin_count := 0\<rparr>"
    using FindReplacePolicy_dirty_victim by blast
  from a have dv: "is_dirty (pages s f)" "page_id (pages s f) = q" "data (pages s f) = d"
    by (simp_all add: dirty_victim_def)
  from a f t pg dv
  show "\<exists>s'. FetchPgImp s p = Inr (Some f, s') \<and>
          trace s' = trace s @ [DiskWrite q d, TableErase q, DiskWrite q d, TableErase q, DiskRead p]"
    by (simp add: FetchPgImp_def acquire_def release_def Let_def pin_incr_def set_page_def
        WritePage_def table_erase_def table_set_def ReadPage_def table_find_def)
next
  assume a: "\<not> latch s \<and> AllocatePage s = Inr (p, s1) \<and>
    \<not> list_all (\<lambda>i. pin_count (pages s i) \<noteq> 0) (frame_indices s) \<and> dirty_victim s f q d"
  let ?s0 = "s\<lparr>latch := True\<rparr>"
  let ?s1 = "?s0\<lparr>next_page_id := next_page_id s + num_instances s\<rparr>"
  from a have al: "AllocatePage ?s0 = Inr (p, ?s1)"
    by (auto simp: AllocatePage_def Let_def split: if_splits)
  from a have "dirty_victim ?s1 f q d" by (simp add: dirty_victim_def)
  then obtain s2 where f: "FindReplacePolicy ?s1 = (Some f, s2)"
    and t: "trace s2 = trace ?s1 @ [DiskWrite q d, TableErase q]"
    and pg: "pages s2 f = (pages ?s1 f)\<lparr>pin_count := 0\<rparr>"
    using FindReplacePolicy_dirty_victim by blast
  from a have dv: "is_dirty (pages s f)" "page_id (pages s f) = q" "data (pages s f) = d"
    by (simp_all add: dirty_victim_def)
  from a have na: "\<not> list_all (\<lambda>i. pin_count (pages ?s1 i) \<noteq> 0) (frame_indices ?s1)"
    by (simp add: frame_indices_def)
  from a al f t pg dv na
  show "\<exists>s'. NewPgImp s = Inr (Some (p, f), s') \<and>
          trace s' = trace s @ [DiskWrite q d, TableErase q, DiskWrite p d]"
    by (simp add: NewPgImp_def acquire_def release_def Let_def pin_incr_def set_page_def
        WritePage_def table_set_def)
qed

text \<open>
  The same on a pool of three frames whose only candidate, frame 0, holds the dirty page 0:
  fetching page 7 and \<^verbatim>\<open>new_page\<close> both write page 0 before they erase its entry.
\<close>

lemma dirty_victim_written_before_erased_example:
  "map_option (\<lambda>s. (trace s,
       map_sum id (\<lambda>(r, s'). (r, trace s')) (FetchPgImp s 7),
       map_sum id (\<lambda>(r, s'). (r, trace s')) (NewPgImp s)))
     (scenario 3 [OpNew, OpNew, OpNew, OpUnpin 0 True])
   = Some ([DiskWrite 0 (replicate PAGE_SIZE 0), DiskWrite 1 (replicate PAGE_SIZE 0),
            DiskWrite 2 (replicate PAGE_SIZE 0)],
           Inr (Some 0,
             [DiskWrite 0 (replicate PAGE_SIZE 0), DiskWrite 1 (replicate PAGE_SIZE 0),
              DiskWrite 2 (replicate PAGE_SIZE 0),
              DiskWrite 0 (replicate PAGE_SIZE 0), TableErase 0,
              DiskWrite 0 (replicate PAGE_SIZE 0), TableErase 0, DiskRead 7]),
           Inr (Some (3, 0),
             [DiskWrite 0 (replicate PAGE_SIZE 0), DiskWrite 1 (replicate PAGE_SIZE 0),
              DiskWrite 2 (replicate PAGE_SIZE 0),
              DiskWrite 0 (replicate PAGE_SIZE 0), TableErase 0,
              DiskWrite 3 (replicate PAGE_SIZE 0)]))"
  by (simp add: exec_simps)

text \<open>
  C5 (the code at the failing input). With three frames, after \<^verbatim>\<open>new\<close> (page 0 in frame 0)
  and \<^verbatim>\<open>unpin(0, true)\<close>, page 0 is resident in a dirty frame with pin count 0 and the latch
  is free. \<^verbatim>\<open>DeletePgImp(0)\<close> takes the latch and, because the frame is dirty, calls
  \<^verbatim>\<open>FlushPgImp\<close>, which locks the same \<^verbatim>\<open>std::mutex\<close> again: the call does not return.
  No write of page 0 is issued and its table entry is not removed, so a dirty frame cannot be
  deleted at all.
\<close>

theorem delete_dirty_page_deadlocks:
  "map_option (\<lambda>s. (table_find s 0, is_dirty (pages s 0), pin_count (pages s 0), latch s,
                     map_sum id fst (DeletePgImp s 0), map_option trace (step (OpDelete 0) s)))
     (scenario 3 [OpNew, OpUnpin 0 True])
   = Some (Some 0, True, 0, False, Inl Deadlock, None)"
  by (simp add: exec_simps)

text \<open>
  C6 (as stated, refuted). On a fresh pool of three frames nothing is resident; \<^verbatim>\<open>new_page\<close>
  returns page 0, the immediate \<^verbatim>\<open>delete(0)\<close> returns \<^verbatim>\<open>false\<close>, and page 0 is resident
  afterwards.
\<close>

theorem new_then_delete_keeps_page:
  "page_table (the (scenario 3 [])) = [] \<and>
   map_sum id (\<lambda>(r, s'). (r, map_sum id (\<lambda>(b, s''). (b, map fst (page_table s''))) (DeletePgImp s' 0)))
     (NewPgImp (the (scenario 3 []))) = Inr (Some (0, 0), Inr (False, [0]))"
  by (simp add: exec_simps)

text \<open>
  C6 (amended). In every reachable state, if \<^verbatim>\<open>new_page\<close> returns page \<open>p\<close>, then \<open>p\<close> is
  resident and pinned, and the immediately following \<^verbatim>\<open>delete(p)\<close> returns \<^verbatim>\<open>false\<close>
  and changes nothing: the resident set stays the one \<^verbatim>\<open>new_page\<close> produced.
\<close>

theorem delete_after_new_page_refused:
  assumes "reachable s" and "NewPgImp s = Inr (Some (p, f), s')"
  shows "table_find s' p = Some f \<and> 0 < pin_count (pages s' f) \<and> DeletePgImp s' p = Inr (False, s')"
proof -
  from assms(1) have inv: "pool_inv s" and nl: "\<not> latch s" by (auto dest: reachable_inv)
  let ?s0 = "s\<lparr>latch := True\<rparr>"
  from nl have aq: "acquire s = Inr ?s0" by (rule acquire_free)
  from assms(2) aq obtain p1 s1 where a: "AllocatePage ?s0 = Inr (p1, s1)"
    by (auto simp: NewPgImp_def split: sum.splits)
  then have s1: "s1 = ?s0\<lparr>next_page_id := next_page_id ?s0 + num_instances ?s0\<rparr>"
    by (rule AllocatePage_fields [THEN conjunct2])
  with inv have i1: "pool_inv s1" by (simp add: pool_inv_def)
  obtain r2 s2 where frp: "FindReplacePolicy s1 = (r2, s2)" by (cases "FindReplacePolicy s1")
  with i1 have "pool_inv s2" by (rule FindReplacePolicy_inv)
  then have nn: "\<And>g. 0 \<le> pin_count (pages s2 g)" by (simp add: pool_inv_def)
  from assms(2) aq a frp have r2: "r2 = Some f" and p1: "p1 = p"
    by (auto simp: NewPgImp_def Let_def split: if_splits option.splits sum.splits)
  from assms(2) aq a frp r2 obtain c where c: "pin_incr (pin_count (pages s2 f)) = Inr c"
    by (auto simp: NewPgImp_def Let_def split: if_splits sum.splits)
  with nn [of f] have c1: "0 < c" by (auto simp: pin_incr_def split: if_splits)
  from assms(2) aq a frp r2 p1 c
  have t: "page_table s' = AList.update p f (page_table s2)" and pc: "pin_count (pages s' f) = c"
    and l: "\<not> latch s'"
    by (auto simp: NewPgImp_def Let_def set_page_def table_set_def WritePage_def release_def
        split: if_splits)
  from t have tf: "table_find s' p = Some f" by (simp add: table_find_def update_conv')
  with pc c1 l have "DeletePgImp s' p = Inr (False, s')"
    by (simp add: DeletePgImp_def acquire_def table_find_def release_acquire)
  with tf pc c1 show ?thesis by simp
qed

theorem delete_after_new_page_refused_witness:
  "\<exists>s'. NewPgImp (the (scenario 3 [])) = Inr (Some (0, 0), s') \<and> table_find s' 0 = Some 0 \<and>
        0 < pin_count (pages s' 0) \<and> DeletePgImp s' 0 = Inr (False, s')"
proof -
  let ?S = "the (scenario 3 [])"
  have "scenario 3 [] = Some ?S" by (simp add: exec_simps)
  then have r: "reachable ?S" by (rule scenario_reachable)
  obtain s' where n: "NewPgImp ?S = Inr (Some (0, 0), s')" by (simp add: exec_simps)
  from delete_after_new_page_refused [OF r n] n show ?thesis by blast
qed

text \<open>
  C8 (the code at the failing input). On a fresh pool of three frames, fetching
  \<^verbatim>\<open>INVALID_PAGE_ID\<close> does not return null: it takes frame 0 from the free list, enters the
  sentinel into the page table and pins the frame. Flushing the sentinel there returns
  \<^verbatim>\<open>false\<close>, and deleting it, which returned \<^verbatim>\<open>true\<close> before the fetch, is now refused.
\<close>

theorem fetch_sentinel_succeeds:
  "page_table (the (scenario 3 [])) = [] \<and> free_list (the (scenario 3 [])) = [0, 1, 2] \<and>
   map_sum id (\<lambda>(r, s'). (r, page_table s', free_list s', pin_count (pages s' 0)))
     (FetchPgImp (the (scenario 3 [])) INVALID_PAGE_ID)
     = Inr (Some 0, [(INVALID_PAGE_ID, 0)], [1, 2], 1) \<and>
   map_sum id fst (FlushPgImp (the (scenario 3 [OpFetch INVALID_PAGE_ID])) INVALID_PAGE_ID) = Inr False \<and>
   map_sum id fst (DeletePgImp (the (scenario 3 [])) INVALID_PAGE_ID) = Inr True \<and>
   map_sum id fst (DeletePgImp (the (scenario 3 [OpFetch INVALID_PAGE_ID])) INVALID_PAGE_ID) = Inr False"
  by (simp add: exec_simps)

text \<open>
  C10. When every frame has pin count > 0, \<^verbatim>\<open>NewPgImp\<close> (entered with the latch free),
  whenever it returns, returns null, and the state it leaves differs from the one before only in \<^verbatim>\<open>next_page_id_\<close>,
  advanced by the number of instances: the page table, the frames, the free list and the
  replacer are unchanged. (It does not return when the allocator's assertion fails.)
\<close>

theorem new_page_all_pinned:
  assumes "\<not> latch s" and "\<forall>i \<in> set (frame_indices s). 0 < pin_count (pages s i)"
  shows "NewPgImp s =
     (if num_instances s = 0 then Inl DivisionByZero
      else if next_page_id s mod num_instances s = instance_index s
      then Inr (None, s\<lparr>next_page_id := next_page_id s + num_instances s\<rparr>)
      else Inl AssertionFailed)"
proof -
  from assms(2) have "list_all (\<lambda>i. pin_count (pages s i) \<noteq> 0) (frame_indices s)"
    by (auto simp: list_all_iff)
  moreover have "release (s\<lparr>latch := True, next_page_id := n\<rparr>) = s\<lparr>next_page_id := n\<rparr>" for n
    using assms(1) by (cases s) (simp add: release_def)
  ultimately show ?thesis using assms(1)
    by (simp add: NewPgImp_def AllocatePage_def acquire_def Let_def frame_indices_def)
qed

theorem new_page_all_pinned_witness:
  "map pin_count (map (pages (the (scenario 3 [OpNew, OpNew, OpNew])))
     (frame_indices (the (scenario 3 [OpNew, OpNew, OpNew])))) = [1, 1, 1] \<and>
   next_page_id (the (scenario 3 [OpNew, OpNew, OpNew])) = 3 \<and>
   NewPgImp (the (scenario 3 [OpNew, OpNew, OpNew]))
     = Inr (None, (the (scenario 3 [OpNew, OpNew, OpNew]))\<lparr>next_page_id := 4\<rparr>)"
proof -
  let ?S = "the (scenario 3 [OpNew, OpNew, OpNew])"
  have l: "\<not> latch ?S" by (simp add: exec_simps)
  have p: "map pin_count (map (pages ?S) (frame_indices ?S)) = [1, 1, 1]" by (simp add: exec_simps)
  have h: "\<forall>i \<in> set (frame_indices ?S). 0 < pin_count (pages ?S i)" by (simp add: exec_simps)
  have n: "num_instances ?S = 1" "next_page_id ?S = 3" "instance_index ?S = 0" by (simp_all add: exec_simps)
  from new_page_all_pinned [OF l h] n p show ?thesis by simp
qed

section \<open>The allocator\<close>

lemma unat_progression:
  fixes i N :: "32 word"
  assumes "unat i + m * unat N < 2 ^ 32"
  shows "unat (i + word_of_nat m * N) = unat i + m * unat N"
proof -
  have "unat (i + word_of_nat m * N) = (unat i + m * unat N) mod 2 ^ 32"
    by (simp add: unat_word_ariths unat_of_nat mod_simps)
  with assms show ?thesis by simp
qed

lemma progression_mod:
  fixes i N :: "32 word"
  assumes "unat i + m * unat N < 2 ^ 32" and "i < N"
  shows "(i + word_of_nat m * N) mod N = i"
proof -
  from assms(2) have "unat i < unat N" by (simp add: word_less_nat_alt)
  then have "(unat i + m * unat N) mod unat N = unat i" by simp
  then have "unat ((i + word_of_nat m * N) mod N) = unat i"
    by (simp add: unat_mod unat_progression [OF assms(1)])
  then show ?thesis by (simp add: word_unat_eq_iff)
qed

lemma progression_sint:
  fixes i N :: "32 word"
  assumes "unat i + m * unat N < 2 ^ 31"
  shows "sint (i + word_of_nat m * N) = int (unat i + m * unat N)"
proof -
  define k where "k = int (unat i + m * unat N)"
  from assms have lt: "unat i + m * unat N < 2 ^ 32" by simp
  have "unat (i + word_of_nat m * N) = unat i + m * unat N" by (rule unat_progression [OF lt])
  then have u: "uint (i + word_of_nat m * N) = k" unfolding k_def by (metis uint_nat)
  have "int (unat i + m * unat N) < int (2 ^ 31)" using assms by (simp only: of_nat_less_iff)
  then have "k < 2 ^ 31" by (simp add: k_def)
  moreover have "0 \<le> k" unfolding k_def by (rule of_nat_0_le_iff)
  then have "- (2 ^ 31) \<le> k" by simp
  ultimately have "signed_take_bit 31 k = k" by (rule signed_take_bit_int_eq_self [rotated])
  then have "sint (i + word_of_nat m * N) = k" by (simp add: sint_uint u)
  then show ?thesis by (simp add: k_def)
qed

lemma allocs_progression:
  assumes "num_instances s = N" and "instance_index s = i" and "i < N"
    and "next_page_id s = i + word_of_nat m * N"
    and "unat i + (m + n) * unat N \<le> 2 ^ 31"
  shows "allocs n s = Inr (map (\<lambda>k. i + word_of_nat (m + k) * N) [0 ..< n],
                          s\<lparr>next_page_id := i + word_of_nat (m + n) * N\<rparr>)"
  using assms
proof (induction n arbitrary: m s)
  case 0
  then show ?case by simp
next
  case (Suc n)
  from Suc.prems(3) have N0: "N \<noteq> 0" by auto
  then have "0 < unat N" by (simp add: unat_gt_0)
  have "m * unat N \<le> (m + Suc n) * unat N" by (rule mult_le_mono1) simp
  with Suc.prems(5) have lt: "unat i + m * unat N < 2 ^ 32" by simp
  have md: "(i + word_of_nat m * N) mod N = i"
    by (rule progression_mod [OF lt Suc.prems(3)])
  let ?s1 = "s\<lparr>next_page_id := i + word_of_nat (Suc m) * N\<rparr>"
  have a: "AllocatePage s = Inr (i + word_of_nat m * N, ?s1)"
    using Suc.prems(1,2,4) N0 md by (simp add: AllocatePage_def Let_def algebra_simps)
  have "allocs n ?s1 = Inr (map (\<lambda>k. i + word_of_nat (Suc m + k) * N) [0 ..< n],
                          ?s1\<lparr>next_page_id := i + word_of_nat (Suc m + n) * N\<rparr>)"
    by (rule Suc.IH) (use Suc.prems in simp_all)
  moreover have "map (\<lambda>k. i + word_of_nat (m + k) * N) [0 ..< Suc n]
      = (i + word_of_nat m * N) # map (\<lambda>k. i + word_of_nat (Suc m + k) * N) [0 ..< n]"
    by (simp only: upt_conv_Cons [of 0 "Suc n"] map_Suc_upt [symmetric] list.map map_map o_def)
       simp
  ultimately show ?case using a by simp
qed


lemma allocs_single_instance:
  "num_instances s = 1 \<Longrightarrow> instance_index s = 0 \<Longrightarrow>
   allocs n s = Inr (map (\<lambda>k. next_page_id s + word_of_nat k) [0 ..< n],
                     s\<lparr>next_page_id := next_page_id s + word_of_nat n\<rparr>)"
proof (induction n arbitrary: s)
  case 0
  then show ?case by simp
next
  case (Suc n)
  let ?s1 = "s\<lparr>next_page_id := next_page_id s + 1\<rparr>"
  have a: "AllocatePage s = Inr (next_page_id s, ?s1)"
    using Suc.prems by (simp add: AllocatePage_def Let_def)
  have "allocs n ?s1 = Inr (map (\<lambda>k. next_page_id ?s1 + word_of_nat k) [0 ..< n],
                          ?s1\<lparr>next_page_id := next_page_id ?s1 + word_of_nat n\<rparr>)"
    by (rule Suc.IH) (use Suc.prems in simp_all)
  moreover have "map (\<lambda>k. next_page_id s + word_of_nat k) [0 ..< Suc n]
      = next_page_id s # map (\<lambda>k. next_page_id ?s1 + word_of_nat k) [0 ..< n]"
    by (simp only: upt_conv_Cons [of 0 "Suc n"] map_Suc_upt [symmetric] list.map map_map o_def)
       (simp add: add.assoc)
  ultimately show ?case using a by (simp add: add.assoc)
qed

text \<open>
  C7 (as stated, refuted). On a single instance (N = 1, index 0) the allocator's 2147483648th
  page identifier is 2147483647 and the next one is -2147483648: the 32-bit addition wraps,
  and the sequence is not increasing.
\<close>

theorem page_ids_wrap:
  "map_sum id (\<lambda>(ids, s'). (sint (ids ! 2147483647), sint (ids ! 2147483648)))
     (allocs 2147483649 (the (scenario 3 []))) = Inr (2147483647, - 2147483648)"
proof -
  let ?S = "the (scenario 3 [])"
  have n: "num_instances ?S = 1" "instance_index ?S = 0" "next_page_id ?S = 0"
    by (simp_all add: exec_simps)
  show ?thesis
    by (simp add: allocs_single_instance [OF n(1,2)] n(3))
qed

text \<open>
  C7 (amended). For instance \<open>i\<close> of \<open>N\<close>, \<^verbatim>\<open>next_page_id_\<close> starts at \<open>i\<close> and advances by
  \<open>N\<close> (modulo 2^32) on each allocation; as long as i + n * N does not exceed 2^31, the first
  \<open>n\<close> allocations succeed, the k-th allocated identifier is i + k * N, the sequence is
  strictly increasing, and every identifier satisfies page_id mod N = i.
\<close>

theorem page_ids_progression:
  assumes "new_BufferPoolManagerInstance psize N i dsk = Inr s0"
    and "unat i + n * unat N \<le> 2 ^ 31"
  shows "next_page_id s0 = i \<and>
         allocs n s0 = Inr (map (\<lambda>k. i + word_of_nat k * N) [0 ..< n],
                            s0\<lparr>next_page_id := i + word_of_nat n * N\<rparr>) \<and>
         (\<forall>k<n. sint (i + word_of_nat k * N) = int (unat i) + int k * int (unat N) \<and>
                 (i + word_of_nat k * N) mod N = i) \<and>
         sorted_wrt (<) (map (\<lambda>k. sint (i + word_of_nat k * N)) [0 ..< n])"
proof -
  from assms(1) have f: "num_instances s0 = N" "instance_index s0 = i" "i < N" "next_page_id s0 = i"
    by (auto simp: new_BufferPoolManagerInstance_def split: if_splits)
  then have "0 < unat N" by (metis unat_gt_0 word_not_simps(1))
  have a: "allocs n s0 = Inr (map (\<lambda>k. i + word_of_nat (0 + k) * N) [0 ..< n],
                            s0\<lparr>next_page_id := i + word_of_nat (0 + n) * N\<rparr>)"
    by (rule allocs_progression [OF f(1,2,3)]) (use f(4) assms(2) in simp_all)
  have b: "unat i + k * unat N < 2 ^ 31" if "k < n" for k
  proof -
    from that have "Suc k * unat N \<le> n * unat N" by (intro mult_le_mono1) simp
    with \<open>0 < unat N\<close> assms(2) show ?thesis by simp
  qed
  have c: "sint (i + word_of_nat k * N) = int (unat i) + int k * int (unat N) \<and>
           (i + word_of_nat k * N) mod N = i" if "k < n" for k
    using progression_sint [OF b [OF that]] progression_mod [OF _ f(3), of k] b [OF that]
    by simp
  have d: "sorted_wrt (<) (map (\<lambda>k. sint (i + word_of_nat k * N)) [0 ..< n])"
  proof (subst sorted_wrt_iff_nth_less, intro allI impI)
    fix j k
    assume jk: "j < k" and "k < length (map (\<lambda>k. sint (i + word_of_nat k * N)) [0 ..< n])"
    then have kn: "k < n" and jn: "j < n" by simp_all
    from jk have "j * unat N < k * unat N" using \<open>0 < unat N\<close> by simp
    then have "int (unat i) + int j * int (unat N) < int (unat i) + int k * int (unat N)"
      by (metis add_less_cancel_left of_nat_less_iff of_nat_mult)
    with c [OF kn] c [OF jn] kn jn
    show "map (\<lambda>k. sint (i + word_of_nat k * N)) [0 ..< n] ! j
        < map (\<lambda>k. sint (i + word_of_nat k * N)) [0 ..< n] ! k"
      by simp
  qed
  from a c d f(4) show ?thesis by simp
qed

theorem page_ids_progression_witness:
  "\<exists>s0. new_BufferPoolManagerInstance 3 4 1 (\<lambda>_. []) = Inr s0 \<and> next_page_id s0 = 1 \<and>
         map_sum id fst (allocs 3 s0) = Inr [1, 5, 9] \<and>
         map sint [1, 5, 9 :: 32 word] = [1, 5, 9] \<and> map (\<lambda>p. p mod 4) [1, 5, 9 :: 32 word] = [1, 1, 1]"
proof -
  obtain s0 where s0: "new_BufferPoolManagerInstance 3 4 1 (\<lambda>_. []) = Inr s0"
    by (simp add: new_BufferPoolManagerInstance_def)
  have b: "unat (1 :: 32 word) + 3 * unat (4 :: 32 word) \<le> 2 ^ 31" by simp
  from page_ids_progression [OF s0 b]
  have "next_page_id s0 = 1" and "map_sum id fst (allocs 3 s0) = Inr [1, 5, 9]"
    by (simp_all add: upt_rec)
  with s0 show ?thesis by simp
qed

end
